theory Spec2Isabelle
  imports Main "HOL-Library.AList"
begin

section \<open>The product differ of \<open>assignment.py\<close>\<close>

text \<open>
  The module reads two CSV files (the products imported yesterday and today) and
  yields create, update and delete operations. The model starts at the rows that
  \<open>csv.reader\<close> delivers: a reader is the list of the rows it has yet to hand out, a
  row is a list of strings. Opening the files and the CSV syntax itself are outside
  the model.
\<close>

subsection \<open>Data\<close>

datatype Operation = CREATE | UPDATE | DELETE

text \<open>
  A Python \<open>dict\<close> with string keys and values: an association list in insertion order.
  Storing under a key that is already present replaces the value where the key stands,
  storing under a new key appends; this is \<^const>\<open>AList.update\<close>.
\<close>

type_synonym py_dict = "(string \<times> string) list"

text \<open>
  The dictionary \<open>dict(data={}, id=product[0])\<close> built for every row. The field
  \<open>id\<close> is named \<open>id_p\<close> here, \<open>id\<close> being the identity function of HOL.
\<close>

record product =
  data :: py_dict
  id_p :: string

text \<open>An element of the stream: operation type, product id, the product data or \<open>None\<close>.\<close>

type_synonym op = "Operation \<times> string \<times> py_dict option"

type_synonym csv_reader = "string list list"

text \<open>
  The exceptions the code can raise on rows: \<open>product[idx]\<close> on a row that is too short,
  \<open>next\<close> on a reader with no row left, and the \<open>RuntimeError\<close> that a generator body
  raises in place of a \<open>StopIteration\<close> escaping from it.
\<close>

datatype error = IndexError | StopIteration | RuntimeError

subsection \<open>\<open>convert_data_from_csv\<close>\<close>

text \<open>
  One round of the inner loop, \<open>product_data['data'][headers[idx]] = product[idx]\<close>,
  on the dictionary built so far. \<open>idx\<close> ranges below \<open>len(headers)\<close>, so only the read
  of \<open>product[idx]\<close> can fail.
\<close>

definition set_field :: "string list \<Rightarrow> string list \<Rightarrow> nat \<Rightarrow> error + py_dict \<Rightarrow> error + py_dict" where
  "set_field headers row idx acc =
     (case acc of
        Inl e \<Rightarrow> Inl e
      | Inr d \<Rightarrow>
          if idx < length row then Inr (AList.update (headers ! idx) (row ! idx) d)
          else Inl IndexError)"

text \<open>
  The body of the outer loop for one row: \<open>product[0]\<close> is read first (and fails on an
  empty row, whatever the headers are), then the fields are filled in for
  \<open>idx\<close> in \<open>range(headers_cnt)\<close>.
\<close>

definition convert_row :: "string list \<Rightarrow> string list \<Rightarrow> error + product" where
  "convert_row headers row =
     (case row of
        [] \<Rightarrow> Inl IndexError
      | r0 # _ \<Rightarrow>
          (case fold (set_field headers row) [0..<length headers] (Inr []) of
             Inl e \<Rightarrow> Inl e
           | Inr d \<Rightarrow> Inr \<lparr>data = d, id_p = r0\<rparr>))"

fun convert_data_from_csv :: "csv_reader \<Rightarrow> string list \<Rightarrow> error + product list" where
  "convert_data_from_csv [] headers = Inr []"
| "convert_data_from_csv (row # rows) headers =
     (case convert_row headers row of
        Inl e \<Rightarrow> Inl e
      | Inr p \<Rightarrow>
          (case convert_data_from_csv rows headers of
             Inl e \<Rightarrow> Inl e
           | Inr ps \<Rightarrow> Inr (p # ps)))"

subsection \<open>\<open>find_suitable_product\<close>\<close>

fun find_suitable_product :: "product list \<Rightarrow> string \<Rightarrow> product option" where
  "find_suitable_product [] match_id = None"
| "find_suitable_product (p # products) match_id =
     (if id_p p = match_id then Some p else find_suitable_product products match_id)"

subsection \<open>\<open>prepare_data\<close>\<close>

text \<open>
  \<open>next(before_csv_reader)\<close> drops the first row of the before file;
  \<open>next(after_csv_reader)\<close> takes the first row of the after file as \<open>file_headers\<close>.
  Both remaining readers are converted with \<open>file_headers\<close>.
\<close>

definition prepare_data :: "csv_reader \<Rightarrow> csv_reader \<Rightarrow> error + (product list \<times> product list)" where
  "prepare_data before_csv_reader after_csv_reader =
     (case before_csv_reader of
        [] \<Rightarrow> Inl StopIteration
      | _ # before_rows \<Rightarrow>
          (case after_csv_reader of
             [] \<Rightarrow> Inl StopIteration
           | file_headers # after_rows \<Rightarrow>
               (case convert_data_from_csv before_rows file_headers of
                  Inl e \<Rightarrow> Inl e
                | Inr before_csv_products \<Rightarrow>
                    (case convert_data_from_csv after_rows file_headers of
                       Inl e \<Rightarrow> Inl e
                     | Inr after_csv_products \<Rightarrow>
                         Inr (before_csv_products, after_csv_products)))))"

subsection \<open>\<open>main\<close>\<close>

text \<open>
  The first loop of \<open>main\<close>: one operation for every product of the before list, an
  \<open>UPDATE\<close> carrying the data of the product found in the after list, or a \<open>DELETE\<close>.
\<close>

definition before_op :: "product list \<Rightarrow> product \<Rightarrow> op" where
  "before_op after_products before_product =
     (case find_suitable_product after_products (id_p before_product) of
        Some suitable_product \<Rightarrow> (UPDATE, id_p before_product, Some (data suitable_product))
      | None \<Rightarrow> (DELETE, id_p before_product, None))"

fun before_loop :: "product list \<Rightarrow> product list \<Rightarrow> op list" where
  "before_loop [] after_products = []"
| "before_loop (before_product # rest) after_products =
     before_op after_products before_product # before_loop rest after_products"

text \<open>The second loop: a \<open>CREATE\<close> for every product of the after list not found in the before list.\<close>

fun after_loop :: "product list \<Rightarrow> product list \<Rightarrow> op list" where
  "after_loop [] before_products = []"
| "after_loop (after_product # rest) before_products =
     (case find_suitable_product before_products (id_p after_product) of
        None \<Rightarrow> (CREATE, id_p after_product, Some (data after_product)) # after_loop rest before_products
      | Some _ \<Rightarrow> after_loop rest before_products)"

text \<open>The two loops in sequence: everything the generator yields once the data is prepared.\<close>

definition main_ops :: "product list \<Rightarrow> product list \<Rightarrow> op list" where
  "main_ops before_products after_products =
     before_loop before_products after_products @ after_loop after_products before_products"

text \<open>
  \<open>main\<close> on the rows of the two files. \<open>prepare_data\<close> runs to its end before the first
  \<open>yield\<close>, so the stream is either an exception at the first \<open>next\<close> or the whole list of
  operations. A \<open>StopIteration\<close> leaving the generator body surfaces as \<open>RuntimeError\<close>.
\<close>

definition main :: "csv_reader \<Rightarrow> csv_reader \<Rightarrow> error + op list" where
  "main before_csv after_csv =
     (case prepare_data before_csv after_csv of
        Inl StopIteration \<Rightarrow> Inl RuntimeError
      | Inl e \<Rightarrow> Inl e
      | Inr (before_products, after_products) \<Rightarrow> Inr (main_ops before_products after_products))"

subsection \<open>The generator, one \<open>next\<close> at a time\<close>

text \<open>
  \<open>main\<close> is a generator: the consumer pulls one operation at a time, and between two
  pulls the frame of \<open>main\<close> holds the two lists and the position of the running loop.
  The state below is that frame: the two lists as they are now, and for each \<open>for\<close> loop
  the elements its iterator has yet to visit.
\<close>

record gen_state =
  before_products :: "product list"
  after_products :: "product list"
  before_iter :: "product list"
  after_iter :: "product list"

text \<open>The frame right after \<open>prepare_data\<close> has returned.\<close>

definition gen_init :: "product list \<Rightarrow> product list \<Rightarrow> gen_state" where
  "gen_init bs as =
     \<lparr>before_products = bs, after_products = as, before_iter = bs, after_iter = as\<rparr>"

text \<open>
  The second loop runs on from where it stands until it reaches a \<open>yield\<close> or the end of
  the after list; the result is the operation yielded, if any, and what is left to visit.
\<close>

fun next_create :: "product list \<Rightarrow> product list \<Rightarrow> op option \<times> product list" where
  "next_create bs [] = (None, [])"
| "next_create bs (after_product # rest) =
     (case find_suitable_product bs (id_p after_product) of
        None \<Rightarrow> (Some (CREATE, id_p after_product, Some (data after_product)), rest)
      | Some _ \<Rightarrow> next_create bs rest)"

text \<open>One \<open>next\<close> on the generator: \<open>None\<close> is the end of the stream.\<close>

definition gen_next :: "gen_state \<Rightarrow> op option \<times> gen_state" where
  "gen_next st =
     (case before_iter st of
        before_product # rest \<Rightarrow>
          (Some (before_op (after_products st) before_product), st\<lparr>before_iter := rest\<rparr>)
      | [] \<Rightarrow>
          (case next_create (before_products st) (after_iter st) of
             (r, rest) \<Rightarrow> (r, st\<lparr>after_iter := rest\<rparr>)))"

text \<open>How many elements the two loops have yet to visit.\<close>

definition remaining :: "gen_state \<Rightarrow> nat" where
  "remaining st = length (before_iter st) + length (after_iter st)"

text \<open>Pulling until the stream ends: the operations in the order received, and the final frame.\<close>

function consume :: "gen_state \<Rightarrow> op list \<times> gen_state" where
  "consume st =
     (case gen_next st of
        (None, st') \<Rightarrow> ([], st')
      | (Some x, st') \<Rightarrow> (case consume st' of (xs, st'') \<Rightarrow> (x # xs, st'')))"
  by pat_completeness auto
termination
proof (relation "measure remaining")
  show "wf (measure remaining)"
    by simp
next
  fix st :: gen_state and r st' x
  assume step: "(r, st') = gen_next st" and some: "r = Some x"
  have shorter: "next_create bs as = (Some y, rest) \<Longrightarrow> length rest < length as"
    for bs as y rest
    by (induction as) (auto split: option.splits)
  from step some have "gen_next st = (Some x, st')"
    by simp
  then have "remaining st' < remaining st"
    by (auto simp: gen_next_def remaining_def split: list.splits prod.splits dest: shorter)
  then show "(st', st) \<in> measure remaining"
    by simp
qed

declare consume.simps [simp del]

subsection \<open>The generator as a transition relation\<close>





subsection \<open>Reading the stream\<close>

text \<open>The three components of an operation, the ids of a product list, and the \<open>CREATE\<close> of a product.\<close>

abbreviation op_kind :: "op \<Rightarrow> Operation" where
  "op_kind x \<equiv> fst x"
abbreviation op_id :: "op \<Rightarrow> string" where
  "op_id x \<equiv> fst (snd x)"
abbreviation op_payload :: "op \<Rightarrow> py_dict option" where
  "op_payload x \<equiv> snd (snd x)"
abbreviation ids :: "product list \<Rightarrow> string set" where
  "ids ps \<equiv> id_p ` set ps"
abbreviation create_op :: "product \<Rightarrow> op" where
  "create_op q \<equiv> (CREATE, id_p q, Some (data q))"

subsection \<open>Example inputs\<close>

text \<open>
  Two small catalogues and the CSV files that hold them, a list with an id occurring
  twice, and a before file whose header differs from the after file's.
\<close>

definition scenario_before :: "product list" where
  "scenario_before =
     [\<lparr>data = [(''id'', ''1''), (''name'', ''A'')], id_p = ''1''\<rparr>,
      \<lparr>data = [(''id'', ''2''), (''name'', ''B'')], id_p = ''2''\<rparr>]"

definition scenario_after :: "product list" where
  "scenario_after =
     [\<lparr>data = [(''id'', ''2''), (''name'', ''B2'')], id_p = ''2''\<rparr>,
      \<lparr>data = [(''id'', ''3''), (''name'', ''C'')], id_p = ''3''\<rparr>]"

definition scenario_before_csv :: csv_reader where
  "scenario_before_csv = [[''id'', ''name''], [''1'', ''A''], [''2'', ''B'']]"

definition scenario_after_csv :: csv_reader where
  "scenario_after_csv = [[''id'', ''name''], [''2'', ''B2''], [''3'', ''C'']]"

definition duplicate_after :: "product list" where
  "duplicate_after =
     [\<lparr>data = [(''id'', ''3''), (''name'', ''C'')], id_p = ''3''\<rparr>,
      \<lparr>data = [(''id'', ''2''), (''name'', ''B2'')], id_p = ''2''\<rparr>,
      \<lparr>data = [(''id'', ''2''), (''name'', ''B3'')], id_p = ''2''\<rparr>]"

definition other_header_csv :: csv_reader where
  "other_header_csv = [[''sku'', ''title'', ''price''], [''1'', ''A''], [''2'', ''B'']]"

section \<open>Properties\<close>

subsection \<open>Auxiliary facts\<close>

lemma find_None_iff: "find_suitable_product ps m = None \<longleftrightarrow> m \<notin> ids ps"
  by (induction ps) auto

lemma find_SomeD: "find_suitable_product ps m = Some p \<Longrightarrow> p \<in> set ps \<and> id_p p = m"
  by (induction ps) (auto split: if_splits)

lemma find_first: "m \<notin> ids xs \<Longrightarrow> id_p q = m \<Longrightarrow> find_suitable_product (xs @ q # ys) m = Some q"
  by (induction xs) auto

lemma find_distinct:
  "distinct (map id_p ps) \<Longrightarrow> p \<in> set ps \<Longrightarrow> find_suitable_product ps (id_p p) = Some p"
  by (induction ps) (auto simp: rev_image_eqI)

lemma before_loop_map: "before_loop bs as = map (before_op as) bs"
  by (induction bs) auto

lemma after_loop_filter:
  "after_loop as bs = map create_op [q \<leftarrow> as. id_p q \<notin> ids bs]"
  by (induction as) (simp_all add: find_None_iff [symmetric] split: option.splits)

lemma before_op_id: "op_id (before_op as b) = id_p b"
  by (simp add: before_op_def split: option.splits)

lemma before_op_kind: "op_kind (before_op as b) = (if id_p b \<in> ids as then UPDATE else DELETE)"
  by (simp add: before_op_def find_None_iff [symmetric] split: option.splits)

lemma main_ops_eq:
  "main_ops bs as = map (before_op as) bs @ map create_op [q \<leftarrow> as. id_p q \<notin> ids bs]"
  by (simp add: main_ops_def before_loop_map after_loop_filter)

lemma filter_id_single:
  "distinct (map id_p ps) \<Longrightarrow> p \<in> set ps \<Longrightarrow> [q \<leftarrow> ps. id_p q = id_p p] = [p]"
proof (induction ps)
  case Nil
  then show ?case by simp
next
  case (Cons a ps)
  show ?case
  proof (cases "a = p")
    case True
    with Cons.prems have "\<forall>q\<in>set ps. id_p q \<noteq> id_p p" by (auto simp: image_iff)
    then have "[q \<leftarrow> ps. id_p q = id_p p] = []" by (simp add: filter_empty_conv)
    with True show ?thesis by simp
  next
    case False
    with Cons.prems have "p \<in> set ps" "id_p a \<noteq> id_p p" "distinct (map id_p ps)" by auto
    with Cons.IH show ?thesis by simp
  qed
qed

lemma filter_id_none: "m \<notin> ids ps \<Longrightarrow> [q \<leftarrow> ps. id_p q = m] = []"
  by (auto simp: filter_empty_conv)

lemma ops_for_id:
  "[x \<leftarrow> main_ops bs as. op_id x = m] =
     map (before_op as) [b \<leftarrow> bs. id_p b = m] @
     map create_op [q \<leftarrow> as. id_p q \<notin> ids bs \<and> id_p q = m]"
  by (simp add: main_ops_eq filter_map o_def before_op_id)

lemma gen_next_skip:
  assumes "before_iter st = []" and "after_iter st = a # as"
    and "find_suitable_product (before_products st) (id_p a) = Some p"
  shows "gen_next st = gen_next (st\<lparr>after_iter := as\<rparr>)"
  using assms by (simp add: gen_next_def split: prod.splits)

lemma consume_after:
  "before_iter st = [] \<Longrightarrow> after_iter st = as \<Longrightarrow>
   consume st = (after_loop as (before_products st), st\<lparr>after_iter := []\<rparr>)"
proof (induction as arbitrary: st)
  case Nil
  then have "gen_next st = (None, st\<lparr>after_iter := []\<rparr>)"
    by (simp add: gen_next_def)
  then show ?case
    by (simp add: consume.simps [of st])
next
  case (Cons a as)
  let ?st = "st\<lparr>after_iter := as\<rparr>"
  have IH: "consume ?st = (after_loop as (before_products st), st\<lparr>after_iter := []\<rparr>)"
    using Cons.IH [of ?st] Cons.prems by simp
  show ?case
  proof (cases "find_suitable_product (before_products st) (id_p a)")
    case None
    with Cons.prems have "gen_next st = (Some (create_op a), ?st)"
      by (simp add: gen_next_def)
    with IH None show ?thesis
      by (simp add: consume.simps [of st])
  next
    case (Some p)
    with Cons.prems have "gen_next st = gen_next ?st"
      by (intro gen_next_skip)
    then have "consume st = consume ?st"
      by (simp add: consume.simps [of st] consume.simps [of ?st])
    with IH Some show ?thesis
      by simp
  qed
qed

lemma consume_eq:
  "before_iter st = bs \<Longrightarrow>
   consume st =
     (before_loop bs (after_products st) @ after_loop (after_iter st) (before_products st),
      st\<lparr>before_iter := [], after_iter := []\<rparr>)"
proof (induction bs arbitrary: st)
  case Nil
  then have "st\<lparr>before_iter := [], after_iter := []\<rparr> = st\<lparr>after_iter := []\<rparr>"
    by (cases st) simp
  with Nil consume_after [of st "after_iter st"] show ?case
    by simp
next
  case (Cons b bs)
  let ?st = "st\<lparr>before_iter := bs\<rparr>"
  from Cons.prems have "gen_next st = (Some (before_op (after_products st) b), ?st)"
    by (simp add: gen_next_def)
  moreover have "consume ?st =
     (before_loop bs (after_products st) @ after_loop (after_iter st) (before_products st),
      st\<lparr>before_iter := [], after_iter := []\<rparr>)"
    using Cons.IH [of ?st] by simp
  ultimately show ?case
    by (simp add: consume.simps [of st])
qed

lemma consume_gen_init:
  "consume (gen_init bs as) =
     (main_ops bs as, \<lparr>before_products = bs, after_products = as, before_iter = [], after_iter = []\<rparr>)"
  using consume_eq [of "gen_init bs as" bs] by (simp add: gen_init_def main_ops_def)







lemma fold_set_field_keys:
  "n \<le> length headers \<Longrightarrow> fold (set_field headers row) [0..<n] (Inr d0) = Inr d \<Longrightarrow>
   fst ` set d = fst ` set d0 \<union> set (take n headers)"
proof (induction n arbitrary: d)
  case 0
  then show ?case by simp
next
  case (Suc n)
  from Suc.prems(2)
  have step: "set_field headers row n (fold (set_field headers row) [0..<n] (Inr d0)) = Inr d"
    by simp
  then obtain d' where d': "fold (set_field headers row) [0..<n] (Inr d0) = Inr d'"
    by (cases "fold (set_field headers row) [0..<n] (Inr d0)") (simp_all add: set_field_def)
  with step have d: "d = AList.update (headers ! n) (row ! n) d'"
    by (simp add: set_field_def split: if_splits)
  from Suc.prems(1) have "fst ` set d' = fst ` set d0 \<union> set (take n headers)"
    using Suc.IH [OF _ d'] by simp
  with Suc.prems(1) show ?case
    by (auto simp: d dom_update take_Suc_conv_app_nth)
qed

lemma convert_row_keys:
  "convert_row headers row = Inr p \<Longrightarrow> fst ` set (data p) = set headers"
proof -
  assume c: "convert_row headers row = Inr p"
  then obtain d where d: "fold (set_field headers row) [0..<length headers] (Inr []) = Inr d"
    and p: "data p = d"
    by (auto simp: convert_row_def split: list.splits sum.splits)
  from fold_set_field_keys [OF order_refl d] p show ?thesis
    by simp
qed

lemma convert_keys:
  "convert_data_from_csv rows headers = Inr ps \<Longrightarrow> p \<in> set ps \<Longrightarrow>
   fst ` set (data p) = set headers"
proof (induction rows arbitrary: ps)
  case Nil
  then show ?case by simp
next
  case (Cons row rows)
  from Cons.prems(1) obtain p0 ps0 where row: "convert_row headers row = Inr p0"
    and rows: "convert_data_from_csv rows headers = Inr ps0" and ps: "ps = p0 # ps0"
    by (auto split: sum.splits)
  from Cons.prems(2) ps consider "p = p0" | "p \<in> set ps0"
    by auto
  then show ?case
  proof cases
    case 1
    with row show ?thesis by (simp add: convert_row_keys)
  next
    case 2
    with rows show ?thesis by (rule Cons.IH)
  qed
qed

lemma payload_from_after:
  "x \<in> set (main_ops bs as) \<Longrightarrow> op_payload x = Some d \<Longrightarrow> \<exists>q\<in>set as. d = data q"
proof -
  assume x: "x \<in> set (main_ops bs as)" and d: "op_payload x = Some d"
  from x consider b where "b \<in> set bs" "x = before_op as b"
    | q where "q \<in> set as" "x = create_op q"
    by (auto simp: main_ops_eq)
  then show ?thesis
  proof cases
    case 1
    with d obtain q where "find_suitable_product as (id_p b) = Some q" "d = data q"
      by (auto simp: before_op_def split: option.splits)
    with find_SomeD [of as "id_p b" q] show ?thesis
      by blast
  next
    case 2
    with d show ?thesis
      by auto
  qed
qed

lemma prepare_data_Cons:
  "prepare_data (bh # brows) (ah # arows) =
     (case convert_data_from_csv brows ah of
        Inl e \<Rightarrow> Inl e
      | Inr bs \<Rightarrow> (case convert_data_from_csv arows ah of Inl e \<Rightarrow> Inl e | Inr as \<Rightarrow> Inr (bs, as)))"
  by (simp add: prepare_data_def)

lemma scenario_prepare:
  "prepare_data scenario_before_csv scenario_after_csv = Inr (scenario_before, scenario_after)"
  by (simp add: prepare_data_def scenario_before_csv_def scenario_after_csv_def
      scenario_before_def scenario_after_def convert_row_def set_field_def upt_rec)

lemma scenario_ops:
  "main_ops scenario_before scenario_after =
     [(DELETE, ''1'', None),
      (UPDATE, ''2'', Some [(''id'', ''2''), (''name'', ''B2'')]),
      (CREATE, ''3'', Some [(''id'', ''3''), (''name'', ''C'')])]"
  by (simp add: main_ops_def before_op_def scenario_before_def scenario_after_def)

lemma scenario_distinct:
  "distinct (map id_p scenario_before)" "distinct (map id_p scenario_after)"
  by (simp_all add: scenario_before_def scenario_after_def)

subsection \<open>The stream of operations\<close>

text \<open>
  C1. When no id occurs twice within the before list or within the after list, every id
  is classified by exactly one operation of the stream: an id of both lists by an
  \<open>UPDATE\<close> whose payload is the data of the after product with that id, an id of the
  before list only by a \<open>DELETE\<close> with payload \<open>None\<close>, an id of the after list only by a
  \<open>CREATE\<close> with the data of that after product.
\<close>

theorem main_classification:
  assumes "distinct (map id_p bs)" and "distinct (map id_p as)"
  shows "(\<forall>b\<in>set bs. \<forall>a\<in>set as. id_p a = id_p b \<longrightarrow>
            [x \<leftarrow> main_ops bs as. op_id x = id_p b] = [(UPDATE, id_p b, Some (data a))])
       \<and> (\<forall>b\<in>set bs. id_p b \<notin> ids as \<longrightarrow>
            [x \<leftarrow> main_ops bs as. op_id x = id_p b] = [(DELETE, id_p b, None)])
       \<and> (\<forall>a\<in>set as. id_p a \<notin> ids bs \<longrightarrow>
            [x \<leftarrow> main_ops bs as. op_id x = id_p a] = [(CREATE, id_p a, Some (data a))])"
proof (intro conjI ballI impI)
  fix b a
  assume b: "b \<in> set bs" and a: "a \<in> set as" and eq: "id_p a = id_p b"
  from assms(1) b have "[q \<leftarrow> bs. id_p q = id_p b] = [b]"
    by (rule filter_id_single)
  moreover have "[q \<leftarrow> as. id_p q \<notin> ids bs \<and> id_p q = id_p b] = []"
    using b by (auto simp: filter_empty_conv)
  moreover from assms(2) a have "find_suitable_product as (id_p a) = Some a"
    by (rule find_distinct)
  then have "before_op as b = (UPDATE, id_p b, Some (data a))"
    by (simp add: before_op_def eq)
  ultimately show "[x \<leftarrow> main_ops bs as. op_id x = id_p b] = [(UPDATE, id_p b, Some (data a))]"
    by (simp add: ops_for_id)
next
  fix b
  assume b: "b \<in> set bs" and no: "id_p b \<notin> ids as"
  from assms(1) b have "[q \<leftarrow> bs. id_p q = id_p b] = [b]"
    by (rule filter_id_single)
  moreover have "[q \<leftarrow> as. id_p q \<notin> ids bs \<and> id_p q = id_p b] = []"
    using b by (auto simp: filter_empty_conv)
  moreover from no have "find_suitable_product as (id_p b) = None"
    by (simp add: find_None_iff)
  then have "before_op as b = (DELETE, id_p b, None)"
    by (simp add: before_op_def)
  ultimately show "[x \<leftarrow> main_ops bs as. op_id x = id_p b] = [(DELETE, id_p b, None)]"
    by (simp add: ops_for_id)
next
  fix a
  assume a: "a \<in> set as" and no: "id_p a \<notin> ids bs"
  from no have "[q \<leftarrow> bs. id_p q = id_p a] = []"
    by (rule filter_id_none)
  moreover from no have "[q \<leftarrow> as. id_p q \<notin> ids bs \<and> id_p q = id_p a] = [q \<leftarrow> as. id_p q = id_p a]"
    by (intro filter_cong) (auto simp: image_iff)
  moreover from assms(2) a have "[q \<leftarrow> as. id_p q = id_p a] = [a]"
    by (rule filter_id_single)
  ultimately show "[x \<leftarrow> main_ops bs as. op_id x = id_p a] = [(CREATE, id_p a, Some (data a))]"
    by (simp add: ops_for_id)
qed

theorem main_classification_witness:
  "distinct (map id_p scenario_before) \<and> distinct (map id_p scenario_after)
   \<and> [x \<leftarrow> main_ops scenario_before scenario_after. op_id x = ''2''] =
       [(UPDATE, ''2'', Some [(''id'', ''2''), (''name'', ''B2'')])]
   \<and> [x \<leftarrow> main_ops scenario_before scenario_after. op_id x = ''1''] = [(DELETE, ''1'', None)]
   \<and> [x \<leftarrow> main_ops scenario_before scenario_after. op_id x = ''3''] =
       [(CREATE, ''3'', Some [(''id'', ''3''), (''name'', ''C'')])]"
  using main_classification [OF scenario_distinct] scenario_distinct
  by (simp add: scenario_before_def scenario_after_def)

text \<open>
  C2. Whenever the id of the \<open>i\<close>-th before product occurs in the after list, the
  \<open>i\<close>-th operation is an \<open>UPDATE\<close>, whether or not any field differs, and its payload is
  the data of the after product that \<open>find_suitable_product\<close> returns; where that data
  differs from the before product's, the payload is not the before product's data.
\<close>

theorem main_update_unconditional:
  "\<forall>i<length bs. id_p (bs ! i) \<in> ids as \<longrightarrow>
     (\<exists>q\<in>set as. find_suitable_product as (id_p (bs ! i)) = Some q
        \<and> id_p q = id_p (bs ! i)
        \<and> main_ops bs as ! i = (UPDATE, id_p (bs ! i), Some (data q))
        \<and> (data q \<noteq> data (bs ! i) \<longrightarrow> op_payload (main_ops bs as ! i) \<noteq> Some (data (bs ! i))))"
proof (intro allI impI)
  fix i
  assume i: "i < length bs" and mem: "id_p (bs ! i) \<in> ids as"
  from mem obtain q where q: "find_suitable_product as (id_p (bs ! i)) = Some q"
    using find_None_iff [of as "id_p (bs ! i)"] by auto
  from i have "main_ops bs as ! i = before_op as (bs ! i)"
    by (simp add: main_ops_eq nth_append)
  with q have "main_ops bs as ! i = (UPDATE, id_p (bs ! i), Some (data q))"
    by (simp add: before_op_def)
  with q find_SomeD [OF q]
  show "\<exists>q\<in>set as. find_suitable_product as (id_p (bs ! i)) = Some q
        \<and> id_p q = id_p (bs ! i)
        \<and> main_ops bs as ! i = (UPDATE, id_p (bs ! i), Some (data q))
        \<and> (data q \<noteq> data (bs ! i) \<longrightarrow> op_payload (main_ops bs as ! i) \<noteq> Some (data (bs ! i)))"
    by auto
qed

theorem main_update_unconditional_witness:
  "0 < length scenario_after
   \<and> id_p (scenario_after ! 0) \<in> ids scenario_after
   \<and> main_ops scenario_after scenario_after ! 0 =
       (UPDATE, ''2'', Some (data (scenario_after ! 0)))
   \<and> main_ops scenario_before scenario_after ! 1 =
       (UPDATE, ''2'', Some [(''id'', ''2''), (''name'', ''B2'')])"
proof -
  have a: "0 < length scenario_after" "id_p (scenario_after ! 0) \<in> ids scenario_after"
    by (simp_all add: scenario_after_def)
  have b: "1 < length scenario_before" "id_p (scenario_before ! 1) \<in> ids scenario_after"
    by (simp_all add: scenario_before_def scenario_after_def)
  from main_update_unconditional [of scenario_after scenario_after] a
  have "main_ops scenario_after scenario_after ! 0 = (UPDATE, ''2'', Some (data (scenario_after ! 0)))"
    by (auto simp: scenario_after_def)
  moreover from main_update_unconditional [of scenario_before scenario_after] b
  have "main_ops scenario_before scenario_after ! 1 =
       (UPDATE, ''2'', Some [(''id'', ''2''), (''name'', ''B2'')])"
    by (auto simp: scenario_after_def scenario_before_def)
  ultimately show ?thesis
    using a by simp
qed

text \<open>
  C3. When no id occurs twice within the before list or within the after list, the ids
  of the stream are pairwise different and are exactly the ids of the before list
  together with those of the after list: every such id appears exactly once.
\<close>

theorem main_ids_complete:
  assumes "distinct (map id_p bs)" and "distinct (map id_p as)"
  shows "distinct (map op_id (main_ops bs as))
       \<and> set (map op_id (main_ops bs as)) = ids bs \<union> ids as"
proof -
  have m: "map op_id (main_ops bs as) = map id_p bs @ map id_p [q \<leftarrow> as. id_p q \<notin> ids bs]"
    by (simp add: main_ops_eq o_def before_op_id)
  have "distinct (map id_p [q \<leftarrow> as. id_p q \<notin> ids bs])"
    using assms(2) by (rule distinct_map_filter)
  with assms(1) have "distinct (map op_id (main_ops bs as))"
    unfolding m by (auto simp: image_iff)
  moreover have "set (map op_id (main_ops bs as)) = ids bs \<union> ids as"
    unfolding m by auto
  ultimately show ?thesis by simp
qed

theorem main_ids_complete_witness:
  "distinct (map id_p scenario_before) \<and> distinct (map id_p scenario_after)
   \<and> distinct (map op_id (main_ops scenario_before scenario_after))
   \<and> set (map op_id (main_ops scenario_before scenario_after)) = {''1'', ''2'', ''3''}"
  using main_ids_complete [OF scenario_distinct] scenario_distinct
  by (auto simp: scenario_before_def scenario_after_def)

text \<open>
  C4. For all lists, the stream is one operation per before product, in the order of the
  before list and each an \<open>UPDATE\<close> or a \<open>DELETE\<close>, followed by the \<open>CREATE\<close>
  operations of the after products whose id the before list lacks, in the order of the
  after list.
\<close>

theorem main_order:
  "take (length bs) (main_ops bs as) = map (before_op as) bs
   \<and> drop (length bs) (main_ops bs as) = map create_op [q \<leftarrow> as. id_p q \<notin> ids bs]
   \<and> map op_id (take (length bs) (main_ops bs as)) = map id_p bs
   \<and> (\<forall>x\<in>set (take (length bs) (main_ops bs as)). op_kind x = UPDATE \<or> op_kind x = DELETE)
   \<and> (\<forall>x\<in>set (drop (length bs) (main_ops bs as)). op_kind x = CREATE)"
  by (auto simp: main_ops_eq o_def before_op_id before_op_kind)

theorem main_order_witness:
  "take (length scenario_before) (main_ops scenario_before scenario_after) =
     [(DELETE, ''1'', None), (UPDATE, ''2'', Some [(''id'', ''2''), (''name'', ''B2'')])]
   \<and> drop (length scenario_before) (main_ops scenario_before scenario_after) =
     [(CREATE, ''3'', Some [(''id'', ''3''), (''name'', ''C'')])]
   \<and> map op_id (take (length scenario_before) (main_ops scenario_before scenario_after)) = [''1'', ''2'']"
  using main_order [of scenario_before scenario_after]
  by (simp add: scenario_before_def scenario_after_def before_op_def)

text \<open>
  C5. With an empty before list the stream is one \<open>CREATE\<close> per after product in the
  order of the after list; with an empty after list it is one \<open>DELETE\<close> with payload
  \<open>None\<close> per before product in the order of the before list; with both lists empty
  it is empty.
\<close>

theorem main_empty_laws:
  "main_ops [] as = map create_op as
   \<and> main_ops bs [] = map (\<lambda>b. (DELETE, id_p b, None)) bs
   \<and> main_ops [] [] = []"
  by (simp add: main_ops_eq before_op_def)

text \<open>
  C6. For the before products \<open>{id: 1, name: A}\<close>, \<open>{id: 2, name: B}\<close> and the after
  products \<open>{id: 2, name: B2}\<close>, \<open>{id: 3, name: C}\<close> the stream is exactly
  \<open>DELETE\<close> 1 with \<open>None\<close>, \<open>UPDATE\<close> 2 with \<open>{id: 2, name: B2}\<close>, \<open>CREATE\<close> 3 with
  \<open>{id: 3, name: C}\<close>, in that order; the same holds for \<open>main\<close> on the two CSV files
  with header \<open>id,name\<close> holding these rows.
\<close>

theorem main_scenario:
  "main_ops scenario_before scenario_after =
     [(DELETE, ''1'', None),
      (UPDATE, ''2'', Some [(''id'', ''2''), (''name'', ''B2'')]),
      (CREATE, ''3'', Some [(''id'', ''3''), (''name'', ''C'')])]
   \<and> main scenario_before_csv scenario_after_csv =
     Inr [(DELETE, ''1'', None),
          (UPDATE, ''2'', Some [(''id'', ''2''), (''name'', ''B2'')]),
          (CREATE, ''3'', Some [(''id'', ''3''), (''name'', ''C'')])]"
  by (simp add: main_def scenario_prepare scenario_ops)

text \<open>
  C7. Pulling the generator until it is exhausted yields the operations of \<open>main\<close> and
  leaves both product lists of its frame as they were: the same products, ids and data
  in the same order. This holds from the initial frame and from every later one.
\<close>

theorem main_inputs_unchanged:
  "fst (consume (gen_init bs as)) = main_ops bs as
   \<and> before_products (snd (consume (gen_init bs as))) = bs
   \<and> after_products (snd (consume (gen_init bs as))) = as
   \<and> before_products (snd (consume st)) = before_products st
   \<and> after_products (snd (consume st)) = after_products st"
  by (simp add: consume_gen_init consume_eq [of st "before_iter st"])



text \<open>
  C9. \<open>find_suitable_product\<close> returns \<open>None\<close> exactly when no product of the list has the
  id searched for, and otherwise the first product of the list with that id. So when the
  id of the \<open>i\<close>-th before product occurs in the after list, possibly several times, the
  \<open>i\<close>-th operation is an \<open>UPDATE\<close> with the data of the earliest after product of that id.
\<close>

theorem find_suitable_product_first_match:
  "(find_suitable_product ps m = None \<longleftrightarrow> m \<notin> ids ps)
   \<and> (\<forall>xs q ys. ps = xs @ q # ys \<and> id_p q = m \<and> m \<notin> ids xs \<longrightarrow>
         find_suitable_product ps m = Some q
         \<and> (\<forall>i<length bs. id_p (bs ! i) = m \<longrightarrow>
               main_ops bs ps ! i = (UPDATE, m, Some (data q))))"
proof (intro conjI allI impI)
  show "find_suitable_product ps m = None \<longleftrightarrow> m \<notin> ids ps"
    by (rule find_None_iff)
next
  fix xs q ys
  assume "ps = xs @ q # ys \<and> id_p q = m \<and> m \<notin> ids xs"
  then show "find_suitable_product ps m = Some q"
    by (simp add: find_first)
next
  fix xs q ys i
  assume ps: "ps = xs @ q # ys \<and> id_p q = m \<and> m \<notin> ids xs"
    and i: "i < length bs" and m: "id_p (bs ! i) = m"
  from ps have "find_suitable_product ps m = Some q"
    by (simp add: find_first)
  with m have "before_op ps (bs ! i) = (UPDATE, m, Some (data q))"
    by (simp add: before_op_def)
  with i show "main_ops bs ps ! i = (UPDATE, m, Some (data q))"
    by (simp add: main_ops_eq nth_append)
qed

theorem find_suitable_product_first_match_witness:
  "find_suitable_product duplicate_after ''2'' =
     Some \<lparr>data = [(''id'', ''2''), (''name'', ''B2'')], id_p = ''2''\<rparr>
   \<and> main_ops scenario_before duplicate_after ! 1 =
     (UPDATE, ''2'', Some [(''id'', ''2''), (''name'', ''B2'')])"
proof -
  let ?x = "\<lparr>data = [(''id'', ''3''), (''name'', ''C'')], id_p = ''3''\<rparr>"
  let ?q = "\<lparr>data = [(''id'', ''2''), (''name'', ''B2'')], id_p = ''2''\<rparr>"
  let ?y = "\<lparr>data = [(''id'', ''2''), (''name'', ''B3'')], id_p = ''2''\<rparr>"
  have decomp: "duplicate_after = [?x] @ ?q # [?y] \<and> id_p ?q = ''2'' \<and> ''2'' \<notin> ids [?x]"
    by (simp add: duplicate_after_def)
  have i: "1 < length scenario_before" "id_p (scenario_before ! 1) = ''2''"
    by (simp_all add: scenario_before_def)
  from find_suitable_product_first_match [of duplicate_after "''2''" scenario_before]
  have "\<forall>xs q ys. duplicate_after = xs @ q # ys \<and> id_p q = ''2'' \<and> ''2'' \<notin> ids xs \<longrightarrow>
         find_suitable_product duplicate_after ''2'' = Some q
         \<and> (\<forall>i<length scenario_before. id_p (scenario_before ! i) = ''2'' \<longrightarrow>
               main_ops scenario_before duplicate_after ! i = (UPDATE, ''2'', Some (data q)))"
    by (rule conjunct2)
  then have "find_suitable_product duplicate_after ''2'' = Some ?q
         \<and> (\<forall>i<length scenario_before. id_p (scenario_before ! i) = ''2'' \<longrightarrow>
               main_ops scenario_before duplicate_after ! i = (UPDATE, ''2'', Some (data ?q)))"
    using decomp by blast
  with i show ?thesis
    by auto
qed

text \<open>
  C10. \<open>prepare_data\<close> does not depend on the first row of the before file: it converts
  the remaining rows of both files with the first row of the after file as field names.
  So the keys of the data of every product of both lists, and of every payload that
  \<open>main\<close> emits, are the names in the after file's header.
\<close>

theorem prepare_data_after_header_schema:
  "prepare_data (bh # brows) (ah # arows) = prepare_data (bh' # brows) (ah # arows)
   \<and> main (bh # brows) (ah # arows) = main (bh' # brows) (ah # arows)
   \<and> (\<forall>bs as. prepare_data (bh # brows) (ah # arows) = Inr (bs, as) \<longrightarrow>
         convert_data_from_csv brows ah = Inr bs
         \<and> convert_data_from_csv arows ah = Inr as
         \<and> (\<forall>p\<in>set bs \<union> set as. fst ` set (data p) = set ah))
   \<and> (\<forall>ops. main (bh # brows) (ah # arows) = Inr ops \<longrightarrow>
         (\<forall>x\<in>set ops. \<forall>d. op_payload x = Some d \<longrightarrow> fst ` set d = set ah))"
proof (intro conjI allI impI ballI)
  show "prepare_data (bh # brows) (ah # arows) = prepare_data (bh' # brows) (ah # arows)"
    by (simp add: prepare_data_Cons)
  then show "main (bh # brows) (ah # arows) = main (bh' # brows) (ah # arows)"
    by (simp add: main_def)
next
  fix bs as
  assume "prepare_data (bh # brows) (ah # arows) = Inr (bs, as)"
  then show "convert_data_from_csv brows ah = Inr bs"
    by (simp add: prepare_data_Cons split: sum.splits)
next
  fix bs as
  assume "prepare_data (bh # brows) (ah # arows) = Inr (bs, as)"
  then show "convert_data_from_csv arows ah = Inr as"
    by (simp add: prepare_data_Cons split: sum.splits)
next
  fix bs as p
  assume "prepare_data (bh # brows) (ah # arows) = Inr (bs, as)" and "p \<in> set bs \<union> set as"
  then show "fst ` set (data p) = set ah"
    by (auto simp: prepare_data_Cons split: sum.splits dest: convert_keys)
next
  fix ops x d
  assume m: "main (bh # brows) (ah # arows) = Inr ops" and x: "x \<in> set ops"
    and d: "op_payload x = Some d"
  from m obtain bs as where p: "prepare_data (bh # brows) (ah # arows) = Inr (bs, as)"
    and ops: "ops = main_ops bs as"
    by (auto simp: main_def split: sum.splits error.splits)
  from x d ops obtain q where q: "q \<in> set as" "d = data q"
    using payload_from_after by blast
  from p have "convert_data_from_csv arows ah = Inr as"
    by (simp add: prepare_data_Cons split: sum.splits)
  with q show "fst ` set d = set ah"
    by (simp add: convert_keys)
qed

theorem prepare_data_after_header_schema_witness:
  "prepare_data other_header_csv scenario_after_csv = Inr (scenario_before, scenario_after)
   \<and> hd scenario_before \<in> set scenario_before \<union> set scenario_after
   \<and> fst ` set (data (hd scenario_before)) = {''id'', ''name''}
   \<and> main other_header_csv scenario_after_csv = main scenario_before_csv scenario_after_csv
   \<and> main other_header_csv scenario_after_csv = Inr (main_ops scenario_before scenario_after)
   \<and> (UPDATE, ''2'', Some [(''id'', ''2''), (''name'', ''B2'')])
         \<in> set (main_ops scenario_before scenario_after)
   \<and> fst ` set [(''id'', ''2''), (''name'', ''B2'')] = {''id'', ''name''}"
proof -
  let ?bh = "[''sku'', ''title'', ''price'']" and ?brows = "[[''1'', ''A''], [''2'', ''B'']]"
  let ?ah = "[''id'', ''name'']" and ?arows = "[[''2'', ''B2''], [''3'', ''C'']]"
  let ?x = "(UPDATE, ''2'', Some [(''id'', ''2''), (''name'', ''B2'')])"
  note inst = prepare_data_after_header_schema [of ?bh ?brows ?ah ?arows ?ah]
  have csv: "other_header_csv = ?bh # ?brows" "scenario_before_csv = ?ah # ?brows"
    "scenario_after_csv = ?ah # ?arows"
    by (simp_all add: other_header_csv_def scenario_before_csv_def scenario_after_csv_def)
  from inst have p: "prepare_data other_header_csv scenario_after_csv = Inr (scenario_before, scenario_after)"
    using scenario_prepare by (simp add: csv)
  from inst have m: "main other_header_csv scenario_after_csv = main scenario_before_csv scenario_after_csv"
    by (simp add: csv)
  have h: "hd scenario_before \<in> set scenario_before \<union> set scenario_after"
    by (simp add: scenario_before_def)
  from inst p have "\<forall>p\<in>set scenario_before \<union> set scenario_after. fst ` set (data p) = set ?ah"
    unfolding csv by blast
  with h have k: "fst ` set (data (hd scenario_before)) = set ?ah"
    by blast
  have ops: "main other_header_csv scenario_after_csv = Inr (main_ops scenario_before scenario_after)"
    by (simp add: main_def p)
  have x: "?x \<in> set (main_ops scenario_before scenario_after)"
    by (simp add: scenario_ops)
  from inst ops have "\<forall>x\<in>set (main_ops scenario_before scenario_after). \<forall>d. op_payload x = Some d \<longrightarrow>
         fst ` set d = set ?ah"
    unfolding csv by blast
  with x have "fst ` set [(''id'', ''2''), (''name'', ''B2'')] = set ?ah"
    by fastforce
  with p m h k ops x show ?thesis
    by simp
qed

end
